theory Spec2Isabelle
  imports Main
begin

section \<open>The rotation lock of kernel/rotation.c\<close>

text \<open>
  The file keeps its state in static variables: the device orientation, the table
  \<open>locks[360]\<close> of per-degree counters, the list \<open>locks_info\<close> of held locks, the
  wait queue \<open>requests\<close>, the flag \<open>locks_initialized\<close> and the counter
  \<open>next_lock_id\<close>. The model threads a record of these through every system call.

  Integers. The arguments \<open>degree\<close>, \<open>low\<close>, \<open>high\<close>, \<open>type\<close>, \<open>id\<close> and the process id
  are C integers that the code only compares and copies, so they are \<open>int\<close> here. The
  loop variable \<open>i\<close> runs between two validated bounds below 360. \<open>next_lock_id\<close> is a
  C \<open>long\<close> that the code increments: the increment wraps at \<open>LONG_MAX\<close> (the kernel is
  built with wrapping signed arithmetic; a 64-bit \<open>long\<close> is taken). The counters of the
  table are incremented and decremented by one per lock; they are \<open>int\<close>.

  Concurrency. \<open>set_orientation\<close>, \<open>rotation_unlock\<close> and \<open>rotation_lock\<close> are first
  modelled as running without interruption up to the point where the call returns or
  goes to sleep in \<open>schedule()\<close>; the mutex calls of the source are not modelled. A
  sleeping call runs again only after \<open>wake_up_all\<close>; wake-ups by signals are not
  modelled, nor is a failing \<open>kmalloc\<close>. The source increments \<open>next_lock_id\<close> before it
  takes any mutex, so \<open>rotation_lock\<close> is also given in two steps, the load of the
  counter and the rest, between which another call can run.
\<close>

subsection \<open>Constants and data\<close>

datatype errno = EINVAL | EPERM

text \<open>
  Modelled from the spec: the header \<open>linux/rotation.h\<close> with \<open>ROT_READ\<close> and \<open>ROT_WRITE\<close>
  is not among the sources. The spec names two kinds, Read and Write, and treats 3 as
  neither; the two macros are taken as 0 and 1.
\<close>

definition ROT_READ :: int where
  "ROT_READ = 0"

definition ROT_WRITE :: int where
  "ROT_WRITE = 1"

text \<open>The limits of a 64-bit \<open>long\<close>.\<close>

definition LONG_MAX :: int where
  "LONG_MAX = 9223372036854775807"

definition LONG_MIN :: int where
  "LONG_MIN = - 9223372036854775808"

text \<open>\<open>x++\<close> on a \<open>long\<close>.\<close>

definition long_incr :: "int \<Rightarrow> int" where
  "long_incr x = (if x = LONG_MAX then LONG_MIN else x + 1)"

text \<open>
  Modelled from the spec: \<open>struct reader_writer_lock\<close> is declared in the missing header;
  the code uses its three counters, which the spec calls the DegreeSlot.
\<close>

record reader_writer_lock =
  active_readers :: int
  active_writers :: int
  waiting_writers :: int

text \<open>
  \<open>struct lock_info\<close>, declared in the same header, with the fields the code assigns
  (\<open>id\<close>, \<open>pid\<close>, \<open>low\<close>, \<open>high\<close>, \<open>type\<close>); the list link is the position in
  \<open>locks_info\<close>, where \<open>list_add\<close> puts a new lock at the head.
\<close>

record lock_info =
  l_id :: int
  l_pid :: int
  l_low :: int
  l_high :: int
  l_type :: int

text \<open>
  A call of \<open>rotation_lock\<close> that sleeps in \<open>schedule()\<close>: its local \<open>lock\<close>, its local flag
  \<open>writer_waiting\<close>, and whether \<open>wake_up_all\<close> has made it runnable again.
\<close>

record waiter =
  w_lock :: lock_info
  writer_waiting :: bool
  woken :: bool

record globals =
  device_orientation :: int
  locks_info :: "lock_info list"
  locks :: "reader_writer_lock list"
  locks_initialized :: bool
  requests :: "waiter list"
  next_lock_id :: int

definition zero_slot :: reader_writer_lock where
  "zero_slot = \<lparr>active_readers = 0, active_writers = 0, waiting_writers = 0\<rparr>"

text \<open>The static initialisers: C zeroes static storage.\<close>

definition initial_state :: globals where
  "initial_state =
     \<lparr>device_orientation = 0, locks_info = [], locks = replicate 360 zero_slot,
      locks_initialized = False, requests = [], next_lock_id = 0\<rparr>"

subsection \<open>Loops over a degree range\<close>

text \<open>
  \<open>for (int i = low; i <= high; i++) body\<close>. The loop does not wrap: with \<open>low > high\<close>
  its body never runs.
\<close>

function for_range :: "int \<Rightarrow> int \<Rightarrow> (int \<Rightarrow> 'a \<Rightarrow> 'a) \<Rightarrow> 'a \<Rightarrow> 'a" where
  "for_range i high body a =
     (if i \<le> high then for_range (i + 1) high body (body i a) else a)"
  by pat_completeness auto
termination
  by (relation "measure (\<lambda>(i, high, body, a). nat (high + 1 - i))") auto

declare for_range.simps [simp del]

text \<open>
  \<open>for (int i = low; i <= high; i++) { if (busy i) return 0; } return 1;\<close>
\<close>

function scan_range :: "int \<Rightarrow> int \<Rightarrow> (int \<Rightarrow> bool) \<Rightarrow> bool" where
  "scan_range i high busy =
     (if i \<le> high then (if busy i then False else scan_range (i + 1) high busy) else True)"
  by pat_completeness auto
termination
  by (relation "measure (\<lambda>(i, high, busy). nat (high + 1 - i))") auto

declare scan_range.simps [simp del]

text \<open>
  \<open>locks[i].field op\<close>: one slot of the table rewritten. Every call site has
  \<open>0 \<le> i < 360\<close>, since \<open>rotation_lock\<close> validates the bounds before any loop and
  \<open>rotation_unlock\<close> reads them from a lock that \<open>rotation_lock\<close> created.
\<close>

definition slot_update ::
  "(reader_writer_lock \<Rightarrow> reader_writer_lock) \<Rightarrow> int \<Rightarrow> reader_writer_lock list \<Rightarrow>
   reader_writer_lock list" where
  "slot_update f i ls = ls[nat i := f (ls ! nat i)]"

subsection \<open>set\_orientation\<close>

definition set_orientation :: "int \<Rightarrow> globals \<Rightarrow> (errno + int) \<times> globals" where
  "set_orientation degree s =
     (if degree < 0 \<or> degree \<ge> 360 then (Inl EINVAL, s)
      else (Inr 0, s\<lparr>device_orientation := degree\<rparr>))"

subsection \<open>Helpers of the lock\<close>

definition locks_init :: "globals \<Rightarrow> globals" where
  "locks_init s =
     (if locks_initialized s then s
      else s\<lparr>locks :=
                for_range 0 359
                  (slot_update (\<lambda>r. r\<lparr>active_readers := 0, active_writers := 0,
                                        waiting_writers := 0\<rparr>))
                  (locks s),
              locks_initialized := True\<rparr>)"

definition orientation_in_range :: "int \<Rightarrow> int \<Rightarrow> globals \<Rightarrow> bool" where
  "orientation_in_range low high s =
     (if low \<le> high then device_orientation s \<ge> low \<and> device_orientation s \<le> high
      else device_orientation s \<ge> low \<or> device_orientation s \<le> high)"

definition lock_available :: "int \<Rightarrow> int \<Rightarrow> int \<Rightarrow> globals \<Rightarrow> bool" where
  "lock_available low high type s =
     (if \<not> orientation_in_range low high s then False
      else if type = ROT_READ then
        scan_range low high
          (\<lambda>i. active_writers (locks s ! nat i) > 0 \<or> waiting_writers (locks s ! nat i) > 0)
      else
        scan_range low high
          (\<lambda>i. active_readers (locks s ! nat i) > 0 \<or> active_writers (locks s ! nat i) > 0))"

text \<open>
  Modelled from the spec: \<open>find_lock\<close> is declared in the source but defined nowhere
  (the call site carries a TODO). The spec's registry has \<open>find(id) -> Lock?\<close>, a linear
  scan of the list of held locks for the entry with that id.
\<close>

definition find_lock :: "int \<Rightarrow> globals \<Rightarrow> lock_info option" where
  "find_lock i s = find (\<lambda>l. l_id l = i) (locks_info s)"

text \<open>
  The kernel's \<open>wake_up_all\<close> on the queue: every sleeping call becomes runnable and will
  evaluate its loop condition again.
\<close>

definition wake_up_all :: "waiter list \<Rightarrow> waiter list" where
  "wake_up_all q = map (\<lambda>w. w\<lparr>woken := True\<rparr>) q"

subsection \<open>rotation\_lock\<close>

datatype lock_outcome = Returned int | Suspended waiter

text \<open>
  The \<open>while\<close> loop of \<open>rotation_lock\<close> from one evaluation of its condition on, for a call
  with the locals \<open>w\<close>. When the lock is available the call leaves the loop, links the
  lock into \<open>locks_info\<close>, takes back its \<open>waiting_writers\<close> count if it had registered
  one, counts itself active and returns the id. Otherwise it runs the loop body once (a
  writer registers in \<open>waiting_writers\<close> the first time) and sleeps in \<open>schedule()\<close> on
  the wait queue.
\<close>

definition rotation_lock_loop :: "waiter \<Rightarrow> globals \<Rightarrow> lock_outcome \<times> globals" where
  "rotation_lock_loop w s =
     (let lock = w_lock w; low = l_low lock; high = l_high lock; type = l_type lock in
      if lock_available low high type s then
        (let s1 = s\<lparr>locks_info := lock # locks_info s\<rparr>;
             s2 = (if writer_waiting w
                   then s1\<lparr>locks :=
                          for_range low high
                            (slot_update (\<lambda>r. r\<lparr>waiting_writers := waiting_writers r - 1\<rparr>))
                            (locks s1)\<rparr>
                   else s1);
             s3 = s2\<lparr>locks :=
                       for_range low high
                         (slot_update (\<lambda>r.
                            if type = ROT_READ then r\<lparr>active_readers := active_readers r + 1\<rparr>
                            else r\<lparr>active_writers := active_writers r + 1\<rparr>))
                         (locks s2)\<rparr>
         in (Returned (l_id lock), s3))
      else
        (let s1 = (if type = ROT_WRITE \<and> \<not> writer_waiting w
                   then s\<lparr>locks :=
                          for_range low high
                            (slot_update (\<lambda>r. r\<lparr>waiting_writers := waiting_writers r + 1\<rparr>))
                            (locks s)\<rparr>
                   else s);
             w' = w\<lparr>writer_waiting := (type = ROT_WRITE \<or> writer_waiting w), woken := False\<rparr>
         in (Suspended w', s1\<lparr>requests := w' # requests s1\<rparr>)))"

text \<open>The system call, entered by the process \<open>current_pid\<close>.\<close>

definition rotation_lock ::
  "int \<Rightarrow> int \<Rightarrow> int \<Rightarrow> int \<Rightarrow> globals \<Rightarrow> (errno + lock_outcome) \<times> globals" where
  "rotation_lock current_pid low high type s =
     (let s0 = locks_init s in
      if low < 0 \<or> low \<ge> 360 \<or> high < 0 \<or> high \<ge> 360 \<or>
         (type \<noteq> ROT_READ \<and> type \<noteq> ROT_WRITE)
      then (Inl EINVAL, s0)
      else
        (let lock = \<lparr>l_id = next_lock_id s0, l_pid = current_pid, l_low = low,
                     l_high = high, l_type = type\<rparr>;
             s1 = s0\<lparr>next_lock_id := long_incr (next_lock_id s0)\<rparr>;
             (out, s2) = rotation_lock_loop
                           \<lparr>w_lock = lock, writer_waiting = False, woken = False\<rparr> s1
         in (Inr out, s2)))"

text \<open>
  A call asleep at position \<open>n\<close> of the wait queue is scheduled again. Only a call that
  \<open>wake_up_all\<close> has woken runs; it leaves the queue and evaluates the loop condition
  afresh.
\<close>

definition rotation_lock_resume :: "nat \<Rightarrow> globals \<Rightarrow> lock_outcome option \<times> globals" where
  "rotation_lock_resume n s =
     (if n < length (requests s) \<and> woken (requests s ! n) then
        (let w = requests s ! n;
             (out, s1) = rotation_lock_loop w
                           (s\<lparr>requests := take n (requests s) @ drop (Suc n) (requests s)\<rparr>)
         in (Some out, s1))
      else (None, s))"

subsection \<open>rotation\_unlock\<close>

definition rotation_unlock :: "int \<Rightarrow> int \<Rightarrow> globals \<Rightarrow> (errno + int) \<times> globals" where
  "rotation_unlock current_pid i s =
     (if i < 0 then (Inl EINVAL, s)
      else
        (case find_lock i s of
           None \<Rightarrow> (Inl EINVAL, s)
         | Some lock \<Rightarrow>
             if l_pid lock \<noteq> current_pid then (Inl EPERM, s)
             else
               (Inr 0,
                s\<lparr>locks_info := remove1 lock (locks_info s),
                  locks :=
                    for_range (l_low lock) (l_high lock)
                      (slot_update (\<lambda>r.
                         if l_type lock = ROT_READ
                         then r\<lparr>active_readers := active_readers r - 1\<rparr>
                         else r\<lparr>active_writers := active_writers r - 1\<rparr>))
                      (locks s),
                  requests := wake_up_all (requests s)\<rparr>)))"

subsection \<open>The id counter of rotation\_lock, step by step\<close>

text \<open>
  \<open>lock->id = next_lock_id++\<close> stands before the first \<open>mutex_lock\<close> of the call, and
  \<open>next_lock_id\<close> is a plain static: the statement loads the counter and then stores
  the loaded value plus one, and another call can run between the load and the store.
  \<open>entering\<close> is a call that has passed the validation and loaded the counter: its
  arguments and the value it has loaded.
\<close>

record entering =
  e_pid :: int
  e_low :: int
  e_high :: int
  e_type :: int
  e_loaded :: int

text \<open>The call up to and including the load.\<close>

definition rotation_lock_load ::
  "int \<Rightarrow> int \<Rightarrow> int \<Rightarrow> int \<Rightarrow> globals \<Rightarrow> (errno + entering) \<times> globals" where
  "rotation_lock_load current_pid low high type s =
     (let s0 = locks_init s in
      if low < 0 \<or> low \<ge> 360 \<or> high < 0 \<or> high \<ge> 360 \<or>
         (type \<noteq> ROT_READ \<and> type \<noteq> ROT_WRITE)
      then (Inl EINVAL, s0)
      else
        (Inr \<lparr>e_pid = current_pid, e_low = low, e_high = high, e_type = type,
               e_loaded = next_lock_id s0\<rparr>, s0))"

text \<open>
  The call from the store on: the counter and the lock's id are written from the loaded
  value, and the call goes on to its loop.
\<close>

definition rotation_lock_store :: "entering \<Rightarrow> globals \<Rightarrow> lock_outcome \<times> globals" where
  "rotation_lock_store e s =
     (let lock = \<lparr>l_id = e_loaded e, l_pid = e_pid e, l_low = e_low e, l_high = e_high e,
                  l_type = e_type e\<rparr>;
          s1 = s\<lparr>next_lock_id := long_incr (e_loaded e)\<rparr>
      in rotation_lock_loop \<lparr>w_lock = lock, writer_waiting = False, woken = False\<rparr> s1)"

text \<open>
  Two calls that overlap, from the static initialisers: process 1 calls
  \<open>rotation_lock(0, 10, ROT_READ)\<close> and has loaded the counter; process 2 then runs the
  same call from entry to return; process 1 goes on from its store.
\<close>

definition after_race :: globals where
  "after_race =
     snd (rotation_lock_store
            \<lparr>e_pid = 1, e_low = 0, e_high = 10, e_type = ROT_READ, e_loaded = 0\<rparr>
            (snd (rotation_lock 2 0 10 ROT_READ
                    (snd (rotation_lock_load 1 0 10 ROT_READ initial_state)))))"

section \<open>Serial runs of system calls\<close>

text \<open>
  Calls that run one after the other, none entered while another is between its load
  and its store of the id counter: the three system calls, and the scheduler running a
  woken sleeper of \<open>rotation_lock\<close> again.
\<close>

datatype call =
    Set_orientation int
  | Rotation_lock int int int int
  | Resume nat
  | Rotation_unlock int int

fun exec :: "call \<Rightarrow> globals \<Rightarrow> globals" where
  "exec (Set_orientation degree) s = snd (set_orientation degree s)"
| "exec (Rotation_lock p low high type) s = snd (rotation_lock p low high type s)"
| "exec (Resume n) s = snd (rotation_lock_resume n s)"
| "exec (Rotation_unlock p i) s = snd (rotation_unlock p i s)"

text \<open>
  The id a call takes from \<open>next_lock_id\<close>: a call of \<open>rotation_lock\<close> that passes the
  validation takes one, whether it returns at once or sleeps first.
\<close>

fun issued_by :: "call \<Rightarrow> globals \<Rightarrow> int list" where
  "issued_by (Rotation_lock p low high type) s =
     (case fst (rotation_lock p low high type s) of
        Inl e \<Rightarrow> []
      | Inr (Returned i) \<Rightarrow> [i]
      | Inr (Suspended w) \<Rightarrow> [l_id (w_lock w)])"
| "issued_by c s = []"

fun run :: "call list \<Rightarrow> globals \<Rightarrow> globals" where
  "run [] s = s"
| "run (c # cs) s = run cs (exec c s)"

fun issued :: "call list \<Rightarrow> globals \<Rightarrow> int list" where
  "issued [] s = []"
| "issued (c # cs) s = issued_by c s @ issued cs (exec c s)"

section \<open>Well-formed states\<close>

text \<open>The ids of all locks that exist: the held ones and those of sleeping calls.\<close>

definition lock_ids :: "globals \<Rightarrow> int list" where
  "lock_ids s = map l_id (locks_info s) @ map (\<lambda>w. l_id (w_lock w)) (requests s)"

text \<open>A lock as \<open>rotation_lock\<close> creates it: validated bounds and kind.\<close>

definition valid_lock :: "lock_info \<Rightarrow> bool" where
  "valid_lock l =
     (0 \<le> l_low l \<and> l_low l < 360 \<and> 0 \<le> l_high l \<and> l_high l < 360 \<and>
      (l_type l = ROT_READ \<or> l_type l = ROT_WRITE))"

text \<open>
  What holds of the state from the static initialisers on in a serial run, as long as
  \<open>next_lock_id\<close> has not wrapped: the table has its 360 slots; before the first \<open>locks_init\<close> it is still
  all zero and nothing is held or asleep; every existing id is one that the counter has
  already passed, no two locks share one, and every lock has validated bounds and kind.
\<close>

definition wf_state :: "globals \<Rightarrow> bool" where
  "wf_state s =
     (length (locks s) = 360 \<and>
      (locks_initialized s \<or>
         locks s = replicate 360 zero_slot \<and> locks_info s = [] \<and> requests s = []) \<and>
      list_all (\<lambda>i. 0 \<le> i \<and> i < next_lock_id s) (lock_ids s) \<and>
      0 \<le> next_lock_id s \<and>
      distinct (lock_ids s) \<and>
      list_all valid_lock (locks_info s) \<and>
      list_all (\<lambda>w. valid_lock (w_lock w)) (requests s))"

text \<open>An id that the counter has passed and that no lock carries any more.\<close>

definition stale :: "int \<Rightarrow> globals \<Rightarrow> bool" where
  "stale i s = (i < next_lock_id s \<and> i \<notin> set (lock_ids s))"

text \<open>
  The degrees that the loops of the source reach for a lock: those from \<open>low\<close> to \<open>high\<close>,
  none when \<open>low > high\<close>.
\<close>

definition covers :: "lock_info \<Rightarrow> nat \<Rightarrow> bool" where
  "covers l k = (l_low l \<le> int k \<and> int k \<le> l_high l)"

text \<open>
  The slot that the held locks and the sleeping calls account for at degree \<open>k\<close>: one
  active reader or writer for every held lock that the loops count there, one waiting
  writer for every sleeping call that has registered and is counted there.
\<close>

definition slot_of :: "lock_info list \<Rightarrow> waiter list \<Rightarrow> nat \<Rightarrow> reader_writer_lock" where
  "slot_of held asleep k =
     \<lparr>active_readers = int (length (filter (\<lambda>l. l_type l = ROT_READ \<and> covers l k) held)),
      active_writers = int (length (filter (\<lambda>l. l_type l \<noteq> ROT_READ \<and> covers l k) held)),
      waiting_writers =
        int (length (filter (\<lambda>w. writer_waiting w \<and> covers (w_lock w) k) asleep))\<rparr>"

text \<open>The table holds exactly these counts.\<close>

definition counted :: "globals \<Rightarrow> bool" where
  "counted s = (locks s = map (slot_of (locks_info s) (requests s)) [0..<360])"

section \<open>Lemmas about the loops and the well-formed states\<close>

lemma for_range_empty: "high < i \<Longrightarrow> for_range i high body a = a"
  by (simp add: for_range.simps)

lemma length_for_range_slot [simp]:
  "length (for_range i high (slot_update f) ls) = length ls"
  by (induction i high "slot_update f" ls rule: for_range.induct)
     (subst for_range.simps, simp add: slot_update_def)

lemma nth_for_range_slot:
  "0 \<le> i \<Longrightarrow> k < length ls \<Longrightarrow>
   for_range i high (slot_update f) ls ! k =
     (if i \<le> int k \<and> int k \<le> high then f (ls ! k) else ls ! k)"
proof (induction i high "slot_update f" ls rule: for_range.induct)
  case (1 i high ls)
  show ?case
  proof (cases "i \<le> high")
    case True
    have len: "k < length (slot_update f i ls)" using 1(3) by (simp add: slot_update_def)
    have "for_range i high (slot_update f) ls ! k =
          for_range (i + 1) high (slot_update f) (slot_update f i ls) ! k"
      using True by (subst for_range.simps) simp
    also have "\<dots> = (if i + 1 \<le> int k \<and> int k \<le> high then f (slot_update f i ls ! k)
                      else slot_update f i ls ! k)"
      using 1(1) [OF True _ len] 1(2) by simp
    also have "\<dots> = (if i \<le> int k \<and> int k \<le> high then f (ls ! k) else ls ! k)"
      using 1(2) 1(3) True by (auto simp: slot_update_def nth_list_update)
    finally show ?thesis .
  next
    case False
    then show ?thesis by (subst for_range.simps) auto
  qed
qed

lemma scan_range_iff:
  "scan_range i high busy = (\<forall>j. i \<le> j \<and> j \<le> high \<longrightarrow> \<not> busy j)"
proof (induction i high busy rule: scan_range.induct)
  case (1 i high busy)
  show ?case
  proof (cases "i \<le> high")
    case True
    have "(\<forall>j. i \<le> j \<and> j \<le> high \<longrightarrow> \<not> busy j) =
          (\<not> busy i \<and> (\<forall>j. i + 1 \<le> j \<and> j \<le> high \<longrightarrow> \<not> busy j))"
      using True by (metis add1_zle_eq order_le_less order_refl)
    then show ?thesis using 1 True by (subst scan_range.simps) auto
  next
    case False
    then show ?thesis by (subst scan_range.simps) auto
  qed
qed

lemma for_range_slot_inverse:
  assumes "\<And>r. g (f r) = r" and "0 \<le> i"
  shows "for_range i high (slot_update g) (for_range i high (slot_update f) ls) = ls"
proof (rule nth_equalityI)
  show "length (for_range i high (slot_update g) (for_range i high (slot_update f) ls)) = length ls"
    by simp
next
  fix k assume "k < length (for_range i high (slot_update g) (for_range i high (slot_update f) ls))"
  then have k: "k < length ls" by simp
  then show "for_range i high (slot_update g) (for_range i high (slot_update f) ls) ! k = ls ! k"
    using assms by (simp add: nth_for_range_slot)
qed

lemma for_range_zero_replicate:
  "for_range 0 359
     (slot_update (\<lambda>r. r\<lparr>active_readers := 0, active_writers := 0, waiting_writers := 0\<rparr>))
     (replicate 360 zero_slot) = replicate 360 zero_slot"
  by (rule nth_equalityI) (simp_all add: nth_for_range_slot zero_slot_def)

lemma wf_initial_state: "wf_state initial_state"
  by (simp add: wf_state_def initial_state_def lock_ids_def)

lemma locks_init_wf: "wf_state s \<Longrightarrow> locks_init s = s\<lparr>locks_initialized := True\<rparr>"
  by (auto simp: wf_state_def locks_init_def for_range_zero_replicate)

lemma loop_frame:
  "next_lock_id (snd (rotation_lock_loop w s)) = next_lock_id s"
  "locks_initialized (snd (rotation_lock_loop w s)) = locks_initialized s"
  "device_orientation (snd (rotation_lock_loop w s)) = device_orientation s"
  "length (locks (snd (rotation_lock_loop w s))) = length (locks s)"
  by (simp_all add: rotation_lock_loop_def Let_def)

lemma loop_ids:
  "set (lock_ids (snd (rotation_lock_loop w s))) = insert (l_id (w_lock w)) (set (lock_ids s))"
  "distinct (lock_ids (snd (rotation_lock_loop w s))) =
     (l_id (w_lock w) \<notin> set (lock_ids s) \<and> distinct (lock_ids s))"
  by (auto simp: rotation_lock_loop_def Let_def lock_ids_def)

lemma loop_valid:
  "(list_all valid_lock (locks_info (snd (rotation_lock_loop w s))) \<and>
    list_all (\<lambda>w. valid_lock (w_lock w)) (requests (snd (rotation_lock_loop w s)))) =
   (valid_lock (w_lock w) \<and> list_all valid_lock (locks_info s) \<and>
    list_all (\<lambda>w. valid_lock (w_lock w)) (requests s))"
  by (auto simp: rotation_lock_loop_def Let_def)

lemma loop_outcome_id:
  "fst (rotation_lock_loop w s) = Returned i \<Longrightarrow> i = l_id (w_lock w)"
  "fst (rotation_lock_loop w s) = Suspended w' \<Longrightarrow> l_id (w_lock w') = l_id (w_lock w)"
  by (auto simp: rotation_lock_loop_def Let_def split: if_splits)

lemma wf_loop:
  assumes "wf_state s" "locks_initialized s" "0 \<le> l_id (w_lock w)"
    "l_id (w_lock w) < next_lock_id s" "l_id (w_lock w) \<notin> set (lock_ids s)"
    "valid_lock (w_lock w)"
  shows "wf_state (snd (rotation_lock_loop w s))"
proof -
  have "list_all valid_lock (locks_info (snd (rotation_lock_loop w s))) \<and>
    list_all (\<lambda>w. valid_lock (w_lock w)) (requests (snd (rotation_lock_loop w s)))"
    using assms(1,6) unfolding loop_valid by (simp add: wf_state_def)
  moreover have "\<forall>i\<in>set (lock_ids (snd (rotation_lock_loop w s))).
      0 \<le> i \<and> i < next_lock_id s"
    using assms(1,3,4) unfolding wf_state_def list_all_iff by (simp add: loop_ids)
  ultimately show ?thesis
    using assms(1,2,5) unfolding wf_state_def
    by (simp add: loop_frame loop_ids list_all_iff)
qed

lemma set_orientation_wf: "wf_state s \<Longrightarrow> wf_state (snd (set_orientation d s))"
  by (simp add: set_orientation_def wf_state_def lock_ids_def)

lemma long_incr_below: "x < LONG_MAX \<Longrightarrow> long_incr x = x + 1"
  by (simp add: long_incr_def)

lemma wf_bump:
  "wf_state s \<Longrightarrow>
   wf_state (s\<lparr>locks_initialized := True, next_lock_id := next_lock_id s + 1\<rparr>)"
proof -
  assume wf: "wf_state s"
  let ?s' = "s\<lparr>locks_initialized := True, next_lock_id := next_lock_id s + 1\<rparr>"
  have ids: "lock_ids ?s' = lock_ids s" by (simp add: lock_ids_def)
  have "\<forall>i\<in>set (lock_ids s). 0 \<le> i \<and> i < next_lock_id s"
    using wf unfolding wf_state_def list_all_iff by simp
  then have "\<forall>i\<in>set (lock_ids s). 0 \<le> i \<and> i < next_lock_id s + 1"
    by auto
  then show "wf_state ?s'"
    using wf unfolding wf_state_def list_all_iff ids by simp
qed

lemma wf_fresh: "wf_state s \<Longrightarrow> next_lock_id s \<notin> set (lock_ids s)"
  unfolding wf_state_def list_all_iff by auto

lemma rotation_lock_valid:
  assumes "wf_state s" "0 \<le> low" "low < 360" "0 \<le> high" "high < 360"
    "type = ROT_READ \<or> type = ROT_WRITE"
  shows "rotation_lock p low high type s =
    (Inr (fst (rotation_lock_loop
        \<lparr>w_lock = \<lparr>l_id = next_lock_id s, l_pid = p, l_low = low, l_high = high, l_type = type\<rparr>,
          writer_waiting = False, woken = False\<rparr>
        (s\<lparr>locks_initialized := True, next_lock_id := long_incr (next_lock_id s)\<rparr>))),
     snd (rotation_lock_loop
        \<lparr>w_lock = \<lparr>l_id = next_lock_id s, l_pid = p, l_low = low, l_high = high, l_type = type\<rparr>,
          writer_waiting = False, woken = False\<rparr>
        (s\<lparr>locks_initialized := True, next_lock_id := long_incr (next_lock_id s)\<rparr>)))"
  using assms by (auto simp: rotation_lock_def locks_init_wf Let_def split_beta)

lemma rotation_lock_invalid:
  assumes "wf_state s"
    "low < 0 \<or> 360 \<le> low \<or> high < 0 \<or> 360 \<le> high \<or> (type \<noteq> ROT_READ \<and> type \<noteq> ROT_WRITE)"
  shows "rotation_lock p low high type s = (Inl EINVAL, s\<lparr>locks_initialized := True\<rparr>)"
  using assms by (auto simp: rotation_lock_def locks_init_wf Let_def)

lemma rotation_lock_load_store:
  "rotation_lock p low high type s =
     (case rotation_lock_load p low high type s of
        (Inl err, s0) \<Rightarrow> (Inl err, s0)
      | (Inr e, s0) \<Rightarrow> (case rotation_lock_store e s0 of (out, s2) \<Rightarrow> (Inr out, s2)))"
  by (simp add: rotation_lock_def rotation_lock_load_def rotation_lock_store_def Let_def)

lemma wf_set_initialized: "wf_state s \<Longrightarrow> wf_state (s\<lparr>locks_initialized := True\<rparr>)"
  unfolding wf_state_def by (auto simp: lock_ids_def)

lemma rotation_lock_wf:
  assumes "wf_state s" "next_lock_id s < LONG_MAX"
  shows "wf_state (snd (rotation_lock p low high type s))"
proof (cases "low < 0 \<or> 360 \<le> low \<or> high < 0 \<or> 360 \<le> high \<or> (type \<noteq> ROT_READ \<and> type \<noteq> ROT_WRITE)")
  case True
  then show ?thesis using assms(1) by (simp add: rotation_lock_invalid wf_set_initialized)
next
  case False
  let ?s1 = "s\<lparr>locks_initialized := True, next_lock_id := next_lock_id s + 1\<rparr>"
  have wf1: "wf_state ?s1" using assms(1) by (rule wf_bump)
  have ids: "lock_ids ?s1 = lock_ids s" by (simp add: lock_ids_def)
  have nn: "0 \<le> next_lock_id s" using assms(1) by (simp add: wf_state_def)
  have ok: "valid_lock \<lparr>l_id = next_lock_id s, l_pid = p, l_low = low, l_high = high,
                         l_type = type\<rparr>"
    using False by (auto simp: valid_lock_def)
  show ?thesis
    using False assms ok
      wf_loop [OF wf1, of "\<lparr>w_lock = \<lparr>l_id = next_lock_id s, l_pid = p, l_low = low,
                                      l_high = high, l_type = type\<rparr>,
                            writer_waiting = False, woken = False\<rparr>"]
      wf_fresh [OF assms(1)] nn
    by (simp add: rotation_lock_valid long_incr_below ids)
qed

lemma wf_drop_request:
  assumes "wf_state s" "n < length (requests s)"
  shows "wf_state (s\<lparr>requests := take n (requests s) @ drop (Suc n) (requests s)\<rparr>)"
    and "l_id (w_lock (requests s ! n)) \<notin>
           set (lock_ids (s\<lparr>requests := take n (requests s) @ drop (Suc n) (requests s)\<rparr>))"
    and "set (lock_ids (s\<lparr>requests := take n (requests s) @ drop (Suc n) (requests s)\<rparr>)) \<subseteq>
           set (lock_ids s)"
    and "locks_initialized s"
    and "0 \<le> l_id (w_lock (requests s ! n)) \<and> l_id (w_lock (requests s ! n)) < next_lock_id s"
    and "valid_lock (w_lock (requests s ! n))"
proof -
  let ?q = "requests s"
  have split: "?q = take n ?q @ ?q ! n # drop (Suc n) ?q"
    using assms(2) by (rule id_take_nth_drop)
  have ids: "lock_ids s = map l_id (locks_info s) @ map (\<lambda>w. l_id (w_lock w)) (take n ?q) @
      l_id (w_lock (?q ! n)) # map (\<lambda>w. l_id (w_lock w)) (drop (Suc n) ?q)"
    unfolding lock_ids_def by (subst split) simp
  have ids': "lock_ids (s\<lparr>requests := take n ?q @ drop (Suc n) ?q\<rparr>) =
      map l_id (locks_info s) @ map (\<lambda>w. l_id (w_lock w)) (take n ?q) @
      map (\<lambda>w. l_id (w_lock w)) (drop (Suc n) ?q)"
    by (simp add: lock_ids_def)
  have d: "distinct (lock_ids s)" and a: "\<forall>i\<in>set (lock_ids s). 0 \<le> i \<and> i < next_lock_id s"
    using assms(1) unfolding wf_state_def list_all_iff by auto
  show "l_id (w_lock (?q ! n)) \<notin> set (lock_ids (s\<lparr>requests := take n ?q @ drop (Suc n) ?q\<rparr>))"
    using d unfolding ids ids' by auto
  show sub: "set (lock_ids (s\<lparr>requests := take n ?q @ drop (Suc n) ?q\<rparr>)) \<subseteq> set (lock_ids s)"
    unfolding ids ids' by auto
  show "0 \<le> l_id (w_lock (?q ! n)) \<and> l_id (w_lock (?q ! n)) < next_lock_id s"
    using a unfolding ids by simp
  show init: "locks_initialized s" using assms unfolding wf_state_def by auto
  have v: "\<forall>w\<in>set ?q. valid_lock (w_lock w)"
    using assms(1) unfolding wf_state_def list_all_iff by simp
  show "valid_lock (w_lock (?q ! n))"
    using v assms(2) by simp
  have v': "\<forall>w\<in>set (take n ?q @ drop (Suc n) ?q). valid_lock (w_lock w)"
    using v by (auto dest: in_set_takeD in_set_dropD)
  have d': "distinct (lock_ids (s\<lparr>requests := take n ?q @ drop (Suc n) ?q\<rparr>))"
    using d unfolding ids ids' by auto
  have a': "\<forall>i\<in>set (lock_ids (s\<lparr>requests := take n ?q @ drop (Suc n) ?q\<rparr>)).
      0 \<le> i \<and> i < next_lock_id s"
    using a sub by blast
  show "wf_state (s\<lparr>requests := take n ?q @ drop (Suc n) ?q\<rparr>)"
    using assms(1) init a' d' v' unfolding wf_state_def list_all_iff by simp
qed

lemma resume_wf:
  assumes "wf_state s"
  shows "wf_state (snd (rotation_lock_resume n s))"
proof (cases "n < length (requests s) \<and> woken (requests s ! n)")
  case True
  then have n: "n < length (requests s)" by simp
  let ?s1 = "s\<lparr>requests := take n (requests s) @ drop (Suc n) (requests s)\<rparr>"
  have "wf_state (snd (rotation_lock_loop (requests s ! n) ?s1))"
    using wf_drop_request [OF assms n] by (intro wf_loop) simp_all
  then show ?thesis using True by (simp add: rotation_lock_resume_def Let_def split_beta)
next
  case False
  then show ?thesis using assms by (auto simp: rotation_lock_resume_def)
qed

lemma find_lock_Some: "find_lock i s = Some l \<Longrightarrow> l \<in> set (locks_info s) \<and> l_id l = i"
  by (auto simp: find_lock_def find_Some_iff)

lemma find_lock_None: "(find_lock i s = None) = (i \<notin> l_id ` set (locks_info s))"
  by (auto simp: find_lock_def find_None_iff)

lemma find_lock_distinct:
  assumes "distinct (map l_id (locks_info s))" "l \<in> set (locks_info s)"
  shows "find_lock (l_id l) s = Some l"
proof -
  have "distinct (map l_id ls) \<Longrightarrow> l \<in> set ls \<Longrightarrow>
        find (\<lambda>x. l_id x = l_id l) ls = Some l" for ls
    by (induction ls) auto
  then show ?thesis using assms by (simp add: find_lock_def)
qed

lemma remove1_ids:
  "distinct (map f xs) \<Longrightarrow> x \<in> set xs \<Longrightarrow>
   set (map f (remove1 x xs)) = set (map f xs) - {f x} \<and> distinct (map f (remove1 x xs))"
  by (induction xs) auto

lemma wake_up_all_ids [simp]:
  "map (\<lambda>w. l_id (w_lock w)) (wake_up_all q) = map (\<lambda>w. l_id (w_lock w)) q"
  by (simp add: wake_up_all_def)

lemma rotation_unlock_success:
  assumes "0 \<le> i" "find_lock i s = Some l" "l_pid l = p"
  shows "rotation_unlock p i s =
    (Inr 0, s\<lparr>locks_info := remove1 l (locks_info s),
              locks := for_range (l_low l) (l_high l)
                  (slot_update (\<lambda>r. if l_type l = ROT_READ
                         then r\<lparr>active_readers := active_readers r - 1\<rparr>
                         else r\<lparr>active_writers := active_writers r - 1\<rparr>)) (locks s),
              requests := wake_up_all (requests s)\<rparr>)"
  using assms by (simp add: rotation_unlock_def)

lemma rotation_unlock_not_found:
  "find_lock i s = None \<Longrightarrow> rotation_unlock p i s = (Inl EINVAL, s)"
  by (simp add: rotation_unlock_def)

lemma rotation_unlock_cases:
  "rotation_unlock p i s = (Inl EINVAL, s) \<and> (i < 0 \<or> find_lock i s = None) \<or>
   (\<exists>l. 0 \<le> i \<and> find_lock i s = Some l \<and> l_pid l \<noteq> p \<and> rotation_unlock p i s = (Inl EPERM, s)) \<or>
   (\<exists>l. 0 \<le> i \<and> find_lock i s = Some l \<and> l_pid l = p \<and> fst (rotation_unlock p i s) = Inr 0)"
  by (auto simp: rotation_unlock_def split: option.splits)

lemma unlock_ids:
  assumes "wf_state s" "0 \<le> i" "find_lock i s = Some l" "l_pid l = p"
  shows "set (lock_ids (snd (rotation_unlock p i s))) = set (lock_ids s) - {i}"
    and "distinct (lock_ids (snd (rotation_unlock p i s)))"
proof -
  have l: "l \<in> set (locks_info s)" "l_id l = i" using find_lock_Some [OF assms(3)] by auto
  have d: "distinct (map l_id (locks_info s))"
      "distinct (map (\<lambda>w. l_id (w_lock w)) (requests s))"
      "set (map l_id (locks_info s)) \<inter> set (map (\<lambda>w. l_id (w_lock w)) (requests s)) = {}"
    using assms(1) unfolding wf_state_def lock_ids_def by auto
  note r = remove1_ids [OF d(1) l(1)]
  have ids: "lock_ids (snd (rotation_unlock p i s)) =
      map l_id (remove1 l (locks_info s)) @ map (\<lambda>w. l_id (w_lock w)) (requests s)"
    by (simp add: rotation_unlock_success [OF assms(2-4)] lock_ids_def)
  have notin: "i \<notin> set (map (\<lambda>w. l_id (w_lock w)) (requests s))"
    using d(3) l by auto
  show "set (lock_ids (snd (rotation_unlock p i s))) = set (lock_ids s) - {i}"
    unfolding ids using r notin l(2) by (auto simp: lock_ids_def)
  show "distinct (lock_ids (snd (rotation_unlock p i s)))"
    unfolding ids using r d l(2) by auto
qed

lemma unlock_frame:
  "next_lock_id (snd (rotation_unlock p i s)) = next_lock_id s"
  "locks_initialized (snd (rotation_unlock p i s)) = locks_initialized s"
  "device_orientation (snd (rotation_unlock p i s)) = device_orientation s"
  "length (locks (snd (rotation_unlock p i s))) = length (locks s)"
  by (auto simp: rotation_unlock_def split: option.splits)

lemma unlock_wf:
  assumes "wf_state s"
  shows "wf_state (snd (rotation_unlock p i s))"
proof -
  consider (fail) "snd (rotation_unlock p i s) = s"
    | (ok) l where "0 \<le> i" "find_lock i s = Some l" "l_pid l = p"
    using rotation_unlock_cases [of p i s] by auto
  then show ?thesis
  proof cases
    case fail
    then show ?thesis using assms by simp
  next
    case ok
    have init: "locks_initialized s"
      using assms find_lock_Some [OF ok(2)] unfolding wf_state_def by auto
    have held: "\<forall>x\<in>set (remove1 l (locks_info s)). valid_lock x"
      using assms unfolding wf_state_def list_all_iff by (auto dest: notin_set_remove1)
    have asleep: "\<forall>w\<in>set (wake_up_all (requests s)). valid_lock (w_lock w)"
      using assms unfolding wf_state_def list_all_iff by (auto simp: wake_up_all_def)
    have ids: "\<forall>j\<in>set (lock_ids (snd (rotation_unlock p i s))). 0 \<le> j \<and> j < next_lock_id s"
      using assms unlock_ids(1) [OF assms ok] unfolding wf_state_def list_all_iff by simp
    have "wf_state (s\<lparr>locks_info := remove1 l (locks_info s),
              locks := for_range (l_low l) (l_high l)
                  (slot_update (\<lambda>r. if l_type l = ROT_READ
                         then r\<lparr>active_readers := active_readers r - 1\<rparr>
                         else r\<lparr>active_writers := active_writers r - 1\<rparr>)) (locks s),
              requests := wake_up_all (requests s)\<rparr>)"
      using assms init held asleep ids unlock_ids(2) [OF assms ok]
      unfolding wf_state_def list_all_iff
      by (simp add: rotation_unlock_success [OF ok])
    then show ?thesis by (simp add: rotation_unlock_success [OF ok])
  qed
qed

lemma loop_issued:
  "(case fst (rotation_lock_loop w s) of Returned i \<Rightarrow> [i]
    | Suspended w' \<Rightarrow> [l_id (w_lock w')]) = [l_id (w_lock w)]"
  by (simp add: rotation_lock_loop_def Let_def)

lemma lock_step:
  assumes "wf_state s" "next_lock_id s < LONG_MAX"
  shows "set (lock_ids (snd (rotation_lock p low high type s))) \<subseteq>
           set (lock_ids s) \<union> set (issued_by (Rotation_lock p low high type) s)"
    and "issued_by (Rotation_lock p low high type) s = [] \<and>
           next_lock_id (snd (rotation_lock p low high type s)) = next_lock_id s \<or>
         issued_by (Rotation_lock p low high type) s = [next_lock_id s] \<and>
           next_lock_id (snd (rotation_lock p low high type s)) = next_lock_id s + 1"
proof -
  have "(set (lock_ids (snd (rotation_lock p low high type s))) \<subseteq>
           set (lock_ids s) \<union> set (issued_by (Rotation_lock p low high type) s)) \<and>
        (issued_by (Rotation_lock p low high type) s = [] \<and>
           next_lock_id (snd (rotation_lock p low high type s)) = next_lock_id s \<or>
         issued_by (Rotation_lock p low high type) s = [next_lock_id s] \<and>
           next_lock_id (snd (rotation_lock p low high type s)) = next_lock_id s + 1)"
  proof (cases "low < 0 \<or> 360 \<le> low \<or> high < 0 \<or> 360 \<le> high \<or>
                (type \<noteq> ROT_READ \<and> type \<noteq> ROT_WRITE)")
    case True
    then show ?thesis
      using assms(1) by (simp add: rotation_lock_invalid lock_ids_def)
  next
    case False
    have ids: "lock_ids (s\<lparr>locks_initialized := True, next_lock_id := next_lock_id s + 1\<rparr>) =
               lock_ids s"
      by (simp add: lock_ids_def)
    show ?thesis
      using False assms
      by (simp add: rotation_lock_valid long_incr_below loop_issued loop_ids loop_frame ids)
  qed
  then show "set (lock_ids (snd (rotation_lock p low high type s))) \<subseteq>
           set (lock_ids s) \<union> set (issued_by (Rotation_lock p low high type) s)"
    and "issued_by (Rotation_lock p low high type) s = [] \<and>
           next_lock_id (snd (rotation_lock p low high type s)) = next_lock_id s \<or>
         issued_by (Rotation_lock p low high type) s = [next_lock_id s] \<and>
           next_lock_id (snd (rotation_lock p low high type s)) = next_lock_id s + 1"
    by simp_all
qed

lemma resume_step:
  assumes "wf_state s"
  shows "set (lock_ids (snd (rotation_lock_resume n s))) \<subseteq> set (lock_ids s)"
    and "next_lock_id (snd (rotation_lock_resume n s)) = next_lock_id s"
proof -
  show "next_lock_id (snd (rotation_lock_resume n s)) = next_lock_id s"
    by (simp add: rotation_lock_resume_def Let_def split_beta loop_frame)
  show "set (lock_ids (snd (rotation_lock_resume n s))) \<subseteq> set (lock_ids s)"
  proof (cases "n < length (requests s) \<and> woken (requests s ! n)")
    case True
    then have n: "n < length (requests s)" by simp
    have "l_id (w_lock (requests s ! n)) \<in> set (lock_ids s)"
      using n by (simp add: lock_ids_def)
    then show ?thesis
      using True wf_drop_request(3) [OF assms n]
      by (simp add: rotation_lock_resume_def Let_def split_beta loop_ids)
  next
    case False
    then show ?thesis by (auto simp: rotation_lock_resume_def)
  qed
qed

lemma unlock_step:
  assumes "wf_state s"
  shows "set (lock_ids (snd (rotation_unlock p i s))) \<subseteq> set (lock_ids s)"
proof -
  consider (fail) "snd (rotation_unlock p i s) = s"
    | (ok) l where "0 \<le> i" "find_lock i s = Some l" "l_pid l = p"
    using rotation_unlock_cases [of p i s] by auto
  then show ?thesis
  proof cases
    case fail
    then show ?thesis by simp
  next
    case ok
    show ?thesis using unlock_ids(1) [OF assms ok] by auto
  qed
qed

lemma exec_step:
  assumes "wf_state s" "next_lock_id s < LONG_MAX"
  shows "wf_state (exec c s)"
    and "set (lock_ids (exec c s)) \<subseteq> set (lock_ids s) \<union> set (issued_by c s)"
    and "issued_by c s = [] \<and> next_lock_id (exec c s) = next_lock_id s \<or>
         issued_by c s = [next_lock_id s] \<and> next_lock_id (exec c s) = next_lock_id s + 1"
proof -
  show "wf_state (exec c s)"
    using assms by (cases c) (simp_all add: set_orientation_wf rotation_lock_wf resume_wf unlock_wf)
  show "set (lock_ids (exec c s)) \<subseteq> set (lock_ids s) \<union> set (issued_by c s)"
  proof (cases c)
    case (Set_orientation d)
    then show ?thesis by (simp add: set_orientation_def lock_ids_def)
  next
    case (Rotation_lock p low high type)
    then show ?thesis using lock_step(1) [OF assms] by simp
  next
    case (Resume n)
    then show ?thesis using resume_step(1) [OF assms(1)] by simp
  next
    case (Rotation_unlock p i)
    then show ?thesis using unlock_step [OF assms(1)] by simp
  qed
  show "issued_by c s = [] \<and> next_lock_id (exec c s) = next_lock_id s \<or>
         issued_by c s = [next_lock_id s] \<and> next_lock_id (exec c s) = next_lock_id s + 1"
  proof (cases c)
    case (Set_orientation d)
    then show ?thesis by (simp add: set_orientation_def)
  next
    case (Rotation_lock p low high type)
    then show ?thesis using lock_step(2) [OF assms] by simp
  next
    case (Resume n)
    then show ?thesis using resume_step(2) [OF assms(1)] by simp
  next
    case (Rotation_unlock p i)
    then show ?thesis by (simp add: unlock_frame)
  qed
qed

lemma stale_step:
  assumes "wf_state s" "next_lock_id s < LONG_MAX" "stale i s"
  shows "stale i (exec c s)"
  using assms exec_step(2,3) [OF assms(1,2), of c]
  unfolding stale_def by auto

lemma stale_unlock_fails:
  assumes "stale i s"
  shows "rotation_unlock p i s = (Inl EINVAL, s)"
proof -
  have "i \<notin> l_id ` set (locks_info s)"
    using assms by (auto simp: stale_def lock_ids_def)
  then have "find_lock i s = None" by (simp add: find_lock_None)
  then show ?thesis by (simp add: rotation_unlock_def)
qed

lemma unlock_makes_stale:
  assumes "wf_state s" "fst (rotation_unlock p i s) = Inr r"
  shows "stale i (snd (rotation_unlock p i s))"
proof -
  obtain l where ok: "0 \<le> i" "find_lock i s = Some l" "l_pid l = p"
    using rotation_unlock_cases [of p i s] assms(2) by auto
  have "i \<in> set (lock_ids s)"
    using find_lock_Some [OF ok(2)] by (auto simp: lock_ids_def)
  then have "i < next_lock_id s"
    using assms(1) unfolding wf_state_def list_all_iff by auto
  then show ?thesis
    using unlock_ids(1) [OF assms(1) ok] by (simp add: stale_def unlock_frame)
qed

lemma run_invariants:
  "wf_state s \<Longrightarrow> next_lock_id s + int (length cs) \<le> LONG_MAX \<Longrightarrow>
   wf_state (run cs s) \<and>
   next_lock_id s \<le> next_lock_id (run cs s) \<and>
   next_lock_id (run cs s) \<le> next_lock_id s + int (length cs) \<and>
   (stale i s \<longrightarrow> stale i (run cs s)) \<and>
   sorted_wrt (<) (issued cs s) \<and>
   (\<forall>j\<in>set (issued cs s). next_lock_id s \<le> j \<and> j < next_lock_id (run cs s))"
proof (induction cs arbitrary: s)
  case Nil
  then show ?case by simp
next
  case (Cons c cs)
  have lt: "next_lock_id s < LONG_MAX" using Cons.prems(2) by simp
  note st = exec_step [OF Cons.prems(1) lt, of c]
  have bd: "next_lock_id (exec c s) + int (length cs) \<le> LONG_MAX"
    using st(3) Cons.prems(2) by auto
  note ih = Cons.IH [OF st(1) bd]
  have "wf_state (run (c # cs) s)" using ih by simp
  moreover have "next_lock_id s \<le> next_lock_id (run (c # cs) s)" using ih st(3) by auto
  moreover have "next_lock_id (run (c # cs) s) \<le> next_lock_id s + int (length (c # cs))"
    using ih st(3) by auto
  moreover have "stale i s \<longrightarrow> stale i (run (c # cs) s)"
    using ih stale_step [OF Cons.prems(1) lt, of i c] by simp
  moreover have "sorted_wrt (<) (issued (c # cs) s)"
    using ih st(3) by (auto simp: sorted_wrt_append)
  moreover have "\<forall>j\<in>set (issued (c # cs) s).
      next_lock_id s \<le> j \<and> j < next_lock_id (run (c # cs) s)"
    using ih st(3) by auto
  ultimately show ?case by blast
qed

text \<open>
  Every state that a serial run reaches from the static initialisers is well formed, as
  long as the calls are too few to wrap the id counter.
\<close>

lemma wf_run_initial:
  assumes "int (length cs) \<le> LONG_MAX"
  shows "wf_state (run cs initial_state)"
proof -
  have "next_lock_id initial_state + int (length cs) \<le> LONG_MAX"
    using assms by (simp add: initial_state_def)
  then show ?thesis
    using run_invariants [OF wf_initial_state] by blast
qed

section \<open>The table counts the held locks and the registered sleepers\<close>

text \<open>
  In a serial run every counter of the table is the number of held locks, or of
  registered sleeping writers, that the loops count at that degree: each lock is counted
  in once when it is granted and out once when it is released, and a sleeping writer is
  registered once however often it is woken and sleeps again. So the table is the same
  whenever the held locks and the registered sleepers are the same: a lock that has
  been granted and released, at once or after sleeping, has left nothing in it.
\<close>

lemma counted_initial_state: "counted initial_state"
  by (auto simp: counted_def initial_state_def slot_of_def zero_slot_def intro!: nth_equalityI)

lemma counted_nth:
  "counted s \<Longrightarrow> k < 360 \<Longrightarrow> locks s ! k = slot_of (locks_info s) (requests s) k"
  by (simp add: counted_def)

lemma countedI:
  assumes "length (locks s) = 360"
    and "\<And>k. k < 360 \<Longrightarrow> locks s ! k = slot_of (locks_info s) (requests s) k"
  shows "counted s"
  unfolding counted_def using assms by (intro nth_equalityI) simp_all

lemma counted_loop:
  assumes len: "length (locks s) = 360"
    and tab: "\<And>k. k < 360 \<Longrightarrow>
        locks s ! k =
          slot_of (locks_info s) ((if writer_waiting w then [w] else []) @ requests s) k"
    and low: "0 \<le> l_low (w_lock w)"
  shows "counted (snd (rotation_lock_loop w s))"
proof (rule countedI)
  show "length (locks (snd (rotation_lock_loop w s))) = 360"
    using len by (simp add: loop_frame)
next
  fix k :: nat
  assume k: "k < 360"
  then have kl: "k < length (locks s)" using len by simp
  show "locks (snd (rotation_lock_loop w s)) ! k =
      slot_of (locks_info (snd (rotation_lock_loop w s)))
        (requests (snd (rotation_lock_loop w s))) k"
    using tab [OF k] low kl
    by (auto simp: rotation_lock_loop_def Let_def nth_for_range_slot slot_of_def covers_def)
qed


lemma counted_set_orientation: "counted s \<Longrightarrow> counted (snd (set_orientation d s))"
  by (simp add: counted_def set_orientation_def)

lemma counted_set_initialized: "counted s \<Longrightarrow> counted (s\<lparr>locks_initialized := True\<rparr>)"
  by (simp add: counted_def)

lemma counted_rotation_lock:
  assumes "wf_state s" "counted s"
  shows "counted (snd (rotation_lock p low high type s))"
proof (cases "low < 0 \<or> 360 \<le> low \<or> high < 0 \<or> 360 \<le> high \<or>
              (type \<noteq> ROT_READ \<and> type \<noteq> ROT_WRITE)")
  case True
  then show ?thesis
    using assms by (simp add: rotation_lock_invalid counted_set_initialized)
next
  case False
  let ?w = "\<lparr>w_lock = \<lparr>l_id = next_lock_id s, l_pid = p, l_low = low, l_high = high,
                        l_type = type\<rparr>, writer_waiting = False, woken = False\<rparr>"
  let ?s0 = "s\<lparr>locks_initialized := True, next_lock_id := long_incr (next_lock_id s)\<rparr>"
  have "counted (snd (rotation_lock_loop ?w ?s0))"
  proof (rule counted_loop)
    show "length (locks ?s0) = 360" using assms(1) by (simp add: wf_state_def)
    show "0 \<le> l_low (w_lock ?w)" using False by simp
    show "locks ?s0 ! k =
        slot_of (locks_info ?s0) ((if writer_waiting ?w then [?w] else []) @ requests ?s0) k"
      if "k < 360" for k
      using counted_nth [OF assms(2) that] by simp
  qed
  then show ?thesis using False assms(1) by (simp add: rotation_lock_valid)
qed

lemma count_without_nth:
  assumes "n < length q"
  shows "length (filter P q) =
         length (filter P ((if Q (q ! n) then [q ! n] else []) @ take n q @ drop (Suc n) q)) +
         (if P (q ! n) \<and> \<not> Q (q ! n) then 1 else 0)"
proof -
  have "length (filter P q) = length (filter P (take n q @ q ! n # drop (Suc n) q))"
    using id_take_nth_drop [OF assms] by simp
  then show ?thesis by simp
qed

lemma counted_resume:
  assumes "wf_state s" "counted s"
  shows "counted (snd (rotation_lock_resume n s))"
proof (cases "n < length (requests s) \<and> woken (requests s ! n)")
  case True
  then have n: "n < length (requests s)" by simp
  let ?w = "requests s ! n"
  let ?s0 = "s\<lparr>requests := take n (requests s) @ drop (Suc n) (requests s)\<rparr>"
  note dr = wf_drop_request [OF assms(1) n]
  have "counted (snd (rotation_lock_loop ?w ?s0))"
  proof (rule counted_loop)
    show "length (locks ?s0) = 360" using assms(1) by (simp add: wf_state_def)
    show "0 \<le> l_low (w_lock ?w)" using dr(6) by (simp add: valid_lock_def)
    show "locks ?s0 ! k =
        slot_of (locks_info ?s0) ((if writer_waiting ?w then [?w] else []) @ requests ?s0) k"
      if "k < 360" for k
      using counted_nth [OF assms(2) that]
        count_without_nth [OF n, of "\<lambda>w. writer_waiting w \<and> covers (w_lock w) k" writer_waiting]
      by (simp add: slot_of_def)
  qed
  then show ?thesis using True by (simp add: rotation_lock_resume_def Let_def split_beta)
next
  case False
  then show ?thesis using assms(2) by (auto simp: rotation_lock_resume_def)
qed

lemma count_remove1:
  "l \<in> set xs \<Longrightarrow>
   int (length (filter P (remove1 l xs))) =
     int (length (filter P xs)) - (if P l then 1 else 0)"
  by (induction xs) auto

lemma slot_of_wake_up_all: "slot_of held (wake_up_all q) k = slot_of held q k"
proof -
  have "filter (\<lambda>w. writer_waiting w \<and> covers (w_lock w) k) (wake_up_all q) =
        wake_up_all (filter (\<lambda>w. writer_waiting w \<and> covers (w_lock w) k) q)"
    by (induction q) (auto simp: wake_up_all_def)
  then show ?thesis by (simp add: slot_of_def wake_up_all_def)
qed

lemma counted_unlock:
  assumes "wf_state s" "counted s"
  shows "counted (snd (rotation_unlock p i s))"
proof -
  consider (fail) "snd (rotation_unlock p i s) = s"
    | (ok) l where "0 \<le> i" "find_lock i s = Some l" "l_pid l = p"
    using rotation_unlock_cases [of p i s] by auto
  then show ?thesis
  proof cases
    case fail
    then show ?thesis using assms(2) by simp
  next
    case ok
    have l: "l \<in> set (locks_info s)" using find_lock_Some [OF ok(2)] by simp
    have low: "0 \<le> l_low l"
      using assms(1) l unfolding wf_state_def list_all_iff by (auto simp: valid_lock_def)
    have len: "length (locks s) = 360" using assms(1) by (simp add: wf_state_def)
    show ?thesis
    proof (rule countedI)
      show "length (locks (snd (rotation_unlock p i s))) = 360"
        using len by (simp add: unlock_frame)
    next
      fix k :: nat
      assume k: "k < 360"
      then have kl: "k < length (locks s)" using len by simp
      show "locks (snd (rotation_unlock p i s)) ! k =
          slot_of (locks_info (snd (rotation_unlock p i s)))
            (requests (snd (rotation_unlock p i s))) k"
        using counted_nth [OF assms(2) k] low kl
        by (simp add: rotation_unlock_success [OF ok] nth_for_range_slot slot_of_wake_up_all)
           (simp add: slot_of_def count_remove1 [OF l] covers_def)
    qed
  qed
qed

lemma counted_exec:
  assumes "wf_state s" "counted s"
  shows "counted (exec c s)"
  using assms
  by (cases c)
     (simp_all add: counted_set_orientation counted_rotation_lock counted_resume counted_unlock)

lemma counted_run:
  "wf_state s \<Longrightarrow> counted s \<Longrightarrow> next_lock_id s + int (length cs) \<le> LONG_MAX \<Longrightarrow>
   counted (run cs s)"
proof (induction cs arbitrary: s)
  case Nil
  then show ?case by simp
next
  case (Cons c cs)
  have lt: "next_lock_id s < LONG_MAX" using Cons.prems(3) by simp
  note st = exec_step [OF Cons.prems(1) lt, of c]
  have bd: "next_lock_id (exec c s) + int (length cs) \<le> LONG_MAX"
    using st(3) Cons.prems(3) by auto
  show ?case
    using Cons.IH [OF st(1) counted_exec [OF Cons.prems(1,2)] bd] by simp
qed


lemma counted_run_initial:
  assumes "int (length cs) \<le> LONG_MAX"
  shows "counted (run cs initial_state)"
proof -
  have "next_lock_id initial_state + int (length cs) \<le> LONG_MAX"
    using assms by (simp add: initial_state_def)
  then show ?thesis
    using counted_run [OF wf_initial_state counted_initial_state] by simp
qed

lemma same_locks_same_table:
  assumes "counted s" "counted s'" "locks_info s' = locks_info s"
    and "map (\<lambda>w. (w_lock w, writer_waiting w)) (requests s') =
         map (\<lambda>w. (w_lock w, writer_waiting w)) (requests s)"
  shows "locks s' = locks s"
proof -
  have count: "length (filter (\<lambda>w. writer_waiting w \<and> covers (w_lock w) k) q) =
        length (filter (\<lambda>(l, r). r \<and> covers l k) (map (\<lambda>w. (w_lock w, writer_waiting w)) q))"
    for k and q :: "waiter list"
    by (induction q) auto
  have "slot_of held (requests s') k = slot_of held (requests s) k" for held k
    unfolding slot_of_def count assms(4) by simp
  then show ?thesis using assms(1-3) by (simp add: counted_def)
qed

section \<open>The availability test\<close>

text \<open>
  For a range that does not wrap, \<open>lock_available\<close> is the orientation test together
  with the scan of every degree from \<open>low\<close> to \<open>high\<close>.
\<close>

lemma lock_available_no_wrap:
  assumes "low \<le> high"
  shows "lock_available low high type s =
     (low \<le> device_orientation s \<and> device_orientation s \<le> high \<and>
      (\<forall>d. low \<le> d \<and> d \<le> high \<longrightarrow>
         (if type = ROT_READ
          then active_writers (locks s ! nat d) \<le> 0 \<and> waiting_writers (locks s ! nat d) \<le> 0
          else active_readers (locks s ! nat d) \<le> 0 \<and> active_writers (locks s ! nat d) \<le> 0)))"
  using assms
  by (auto simp: lock_available_def orientation_in_range_def scan_range_iff not_less)

text \<open>
  For a range that wraps (\<open>low > high\<close>) the scan has nothing to look at: the test is the
  orientation test alone.
\<close>

lemma lock_available_wrap:
  assumes "high < low"
  shows "lock_available low high type s =
     (low \<le> device_orientation s \<or> device_orientation s \<le> high)"
  using assms
  by (auto simp: lock_available_def orientation_in_range_def scan_range_iff)

text \<open>
  C1. The claim: for bounds in \<open>[0, 360)\<close>, \<open>lock_available\<close> returns true exactly when the
  orientation lies in the range (wrap-aware) and the conflict counters of every degree
  the range covers are zero, the wrapped part \<open>0..high\<close> included. The source departs from
  it on wrapping ranges: \<open>orientation_in_range\<close> handles \<open>low > high\<close>, the scan loops do
  not. At orientation 0, after a writer has been granted \<open>[0, 0]\<close>, degree 0 has one
  active writer; a write request for \<open>[350, 10]\<close> covers degree 0 and is reported
  available.
\<close>

theorem lock_available_skips_wrapped_degrees:
  "fst (rotation_lock 1 0 0 ROT_WRITE initial_state) = Inr (Returned 0) \<and>
   active_writers (locks (snd (rotation_lock 1 0 0 ROT_WRITE initial_state)) ! 0) = 1 \<and>
   device_orientation (snd (rotation_lock 1 0 0 ROT_WRITE initial_state)) = 0 \<and>
   lock_available 350 10 ROT_WRITE (snd (rotation_lock 1 0 0 ROT_WRITE initial_state))"
  by code_simp

section \<open>Counting a lock in and out\<close>

text \<open>
  What a granted call does to the table: one more active reader or writer at every
  degree \<open>k\<close> with \<open>low \<le> k \<le> high\<close>, nothing elsewhere. There is no such degree when
  \<open>low > high\<close>.
\<close>

lemma granted_lock_counts:
  assumes "rotation_lock_loop w s = (Returned i, s1)" "\<not> writer_waiting w"
    "0 \<le> l_low (w_lock w)" "k < length (locks s)"
  shows "locks s1 ! k =
     (if l_low (w_lock w) \<le> int k \<and> int k \<le> l_high (w_lock w)
      then (if l_type (w_lock w) = ROT_READ
            then (locks s ! k)\<lparr>active_readers := active_readers (locks s ! k) + 1\<rparr>
            else (locks s ! k)\<lparr>active_writers := active_writers (locks s ! k) + 1\<rparr>)
      else locks s ! k)"
  using assms
  by (auto simp: rotation_lock_loop_def Let_def nth_for_range_slot split: if_splits)

text \<open>
  C2. The claim: a granted lock adds one to the active counter of its kind at every
  degree its range covers, wrapping ranges included, and its release takes one off at
  the same degrees. The source departs from it on wrapping ranges, where the counting
  loops never run. From the initial state (orientation 0) a read lock on \<open>[350, 10]\<close> is
  granted with id 0, and every slot of the table is still zero, degrees 355 and 5 among
  them; the release succeeds and leaves the table as it is.
\<close>

theorem wrapping_lock_counts_nothing:
  "fst (rotation_lock 1 350 10 ROT_READ initial_state) = Inr (Returned 0) \<and>
   locks_info (snd (rotation_lock 1 350 10 ROT_READ initial_state)) =
     [\<lparr>l_id = 0, l_pid = 1, l_low = 350, l_high = 10, l_type = ROT_READ\<rparr>] \<and>
   locks (snd (rotation_lock 1 350 10 ROT_READ initial_state)) = replicate 360 zero_slot \<and>
   active_readers (locks (snd (rotation_lock 1 350 10 ROT_READ initial_state)) ! 355) = 0 \<and>
   active_readers (locks (snd (rotation_lock 1 350 10 ROT_READ initial_state)) ! 5) = 0 \<and>
   fst (rotation_unlock 1 0 (snd (rotation_lock 1 350 10 ROT_READ initial_state))) = Inr 0 \<and>
   locks (snd (rotation_unlock 1 0 (snd (rotation_lock 1 350 10 ROT_READ initial_state)))) =
     replicate 360 zero_slot"
  by code_simp

section \<open>Mutual exclusion\<close>

text \<open>
  C3. The claim: in no state reached by system calls does an active writer whose range
  covers a degree coexist with an active reader or a second active writer covering it.
  The source departs from it through wrapping ranges, which take part in neither the
  scan nor the counting. With the orientation set to 5, process 1 is granted a write
  lock on \<open>[350, 10]\<close> (id 0) and process 2 is then granted a write lock on \<open>[0, 10]\<close>
  (id 1): both are held, both cover degree 5, and \<open>active_writers\<close> at degree 5 is 1.
\<close>

theorem two_writers_hold_one_degree:
  "fst (set_orientation 5 initial_state) = Inr 0 \<and>
   fst (rotation_lock 1 350 10 ROT_WRITE (snd (set_orientation 5 initial_state))) =
     Inr (Returned 0) \<and>
   fst (rotation_lock 2 0 10 ROT_WRITE
          (snd (rotation_lock 1 350 10 ROT_WRITE (snd (set_orientation 5 initial_state))))) =
     Inr (Returned 1) \<and>
   locks_info
     (snd (rotation_lock 2 0 10 ROT_WRITE
        (snd (rotation_lock 1 350 10 ROT_WRITE (snd (set_orientation 5 initial_state)))))) =
     [\<lparr>l_id = 1, l_pid = 2, l_low = 0, l_high = 10, l_type = ROT_WRITE\<rparr>,
      \<lparr>l_id = 0, l_pid = 1, l_low = 350, l_high = 10, l_type = ROT_WRITE\<rparr>] \<and>
   active_writers
     (locks
        (snd (rotation_lock 2 0 10 ROT_WRITE
           (snd (rotation_lock 1 350 10 ROT_WRITE (snd (set_orientation 5 initial_state))))))
      ! 5) = 1"
  by code_simp

section \<open>Orientation changes and sleeping calls\<close>

text \<open>\<open>set_orientation\<close> does not touch the wait queue: no sleeping call is woken.\<close>

lemma set_orientation_wakes_nobody:
  "requests (snd (set_orientation degree s)) = requests s"
  by (simp add: set_orientation_def)

text \<open>
  C4. The claim: every successful \<open>set_orientation\<close> wakes all sleeping calls, so that a
  blocked \<open>rotation_lock\<close> whose range now contains the orientation is evaluated again.
  The source departs from it: \<open>set_orientation\<close> stores the degree and returns, without
  the \<open>wake_up_all\<close> that \<open>rotation_unlock\<close> has. From the initial state (orientation 0)
  a read request for \<open>[90, 110]\<close> goes to sleep; after \<open>set_orientation 100\<close> the lock is
  available to it, and it is still asleep on the queue, so that it is not run again.
\<close>

theorem set_orientation_leaves_sleeper_asleep:
  "fst (rotation_lock 1 90 110 ROT_READ initial_state) =
     Inr (Suspended \<lparr>w_lock = \<lparr>l_id = 0, l_pid = 1, l_low = 90, l_high = 110,
                                 l_type = ROT_READ\<rparr>,
                      writer_waiting = False, woken = False\<rparr>) \<and>
   fst (set_orientation 100 (snd (rotation_lock 1 90 110 ROT_READ initial_state))) = Inr 0 \<and>
   lock_available 90 110 ROT_READ
     (snd (set_orientation 100 (snd (rotation_lock 1 90 110 ROT_READ initial_state)))) \<and>
   requests (snd (set_orientation 100 (snd (rotation_lock 1 90 110 ROT_READ initial_state)))) =
     [\<lparr>w_lock = \<lparr>l_id = 0, l_pid = 1, l_low = 90, l_high = 110, l_type = ROT_READ\<rparr>,
       writer_waiting = False, woken = False\<rparr>] \<and>
   fst (rotation_lock_resume 0
          (snd (set_orientation 100 (snd (rotation_lock 1 90 110 ROT_READ initial_state))))) =
     None"
  by code_simp

section \<open>Failures of rotation\_unlock\<close>

text \<open>
  C5. \<open>rotation_unlock\<close> returns \<open>EINVAL\<close> for a negative id and for an id that no held
  lock carries, and \<open>EPERM\<close> when the held lock with that id belongs to another process;
  whenever it returns an error the whole state, the list of held locks and the table
  included, is what it was.
\<close>

theorem rotation_unlock_failures:
  "(i < 0 \<or> (\<forall>l\<in>set (locks_info s). l_id l \<noteq> i) \<longrightarrow>
      rotation_unlock p i s = (Inl EINVAL, s)) \<and>
   (0 \<le> i \<and> l \<in> set (locks_info s) \<and> l_id l = i \<and>
    distinct (map l_id (locks_info s)) \<and> l_pid l \<noteq> p \<longrightarrow>
      rotation_unlock p i s = (Inl EPERM, s)) \<and>
   (\<forall>e. fst (rotation_unlock p i s) = Inl e \<longrightarrow> snd (rotation_unlock p i s) = s)"
proof -
  have none: "(\<forall>l\<in>set (locks_info s). l_id l \<noteq> i) \<Longrightarrow> find_lock i s = None"
    by (auto simp: find_lock_None)
  have some: "l \<in> set (locks_info s) \<Longrightarrow> l_id l = i \<Longrightarrow>
      distinct (map l_id (locks_info s)) \<Longrightarrow> find_lock i s = Some l"
    using find_lock_distinct [of s l] by auto
  show ?thesis
    using none some by (auto simp: rotation_unlock_def split: option.splits)
qed

theorem rotation_unlock_failures_witness:
  "locks_info (snd (rotation_lock 1 0 10 ROT_READ initial_state)) =
     [\<lparr>l_id = 0, l_pid = 1, l_low = 0, l_high = 10, l_type = ROT_READ\<rparr>] \<and>
   rotation_unlock 1 (- 1) (snd (rotation_lock 1 0 10 ROT_READ initial_state)) =
     (Inl EINVAL, snd (rotation_lock 1 0 10 ROT_READ initial_state)) \<and>
   rotation_unlock 1 7 (snd (rotation_lock 1 0 10 ROT_READ initial_state)) =
     (Inl EINVAL, snd (rotation_lock 1 0 10 ROT_READ initial_state)) \<and>
   rotation_unlock 2 0 (snd (rotation_lock 1 0 10 ROT_READ initial_state)) =
     (Inl EPERM, snd (rotation_lock 1 0 10 ROT_READ initial_state))"
proof -
  define s where "s = snd (rotation_lock 1 0 10 ROT_READ initial_state)"
  let ?l = "\<lparr>l_id = 0, l_pid = 1, l_low = 0, l_high = 10, l_type = ROT_READ\<rparr>"
  have held: "locks_info s = [?l]" unfolding s_def by code_simp
  have "rotation_unlock 1 (- 1) s = (Inl EINVAL, s)"
    using rotation_unlock_failures [of "- 1" s 1 ?l] by simp
  moreover have "rotation_unlock 1 7 s = (Inl EINVAL, s)"
    using rotation_unlock_failures [of 7 s 1 ?l] held by simp
  moreover have "rotation_unlock 2 0 s = (Inl EPERM, s)"
    using rotation_unlock_failures [of 0 s 2 ?l] held by simp
  ultimately show ?thesis using held unfolding s_def by blast
qed

section \<open>Invalid arguments of rotation\_lock\<close>




section \<open>Lock then unlock\<close>

text \<open>
  A call that leaves the loop with the lock, released at once by its owner: the release
  succeeds, the active counters are back where they were, a \<open>waiting_writers\<close> count
  that the call had registered is taken off, and a second release does not find the id.
\<close>

lemma grant_release:
  assumes loop: "rotation_lock_loop w s = (Returned i, s1)"
    and low: "0 \<le> l_low (w_lock w)"
    and nn: "0 \<le> l_id (w_lock w)"
    and fresh: "l_id (w_lock w) \<notin> l_id ` set (locks_info s)"
  shows "fst (rotation_unlock (l_pid (w_lock w)) i s1) = Inr 0 \<and>
         locks (snd (rotation_unlock (l_pid (w_lock w)) i s1)) =
           (if writer_waiting w
            then for_range (l_low (w_lock w)) (l_high (w_lock w))
                   (slot_update (\<lambda>r. r\<lparr>waiting_writers := waiting_writers r - 1\<rparr>)) (locks s)
            else locks s) \<and>
         locks_info (snd (rotation_unlock (l_pid (w_lock w)) i s1)) = locks_info s \<and>
         fst (rotation_unlock q i (snd (rotation_unlock (l_pid (w_lock w)) i s1))) = Inl EINVAL"
proof -
  let ?lock = "w_lock w"
  let ?inc = "\<lambda>r. if l_type ?lock = ROT_READ then r\<lparr>active_readers := active_readers r + 1\<rparr>
                   else r\<lparr>active_writers := active_writers r + 1\<rparr>"
  let ?dec = "\<lambda>r. if l_type ?lock = ROT_READ then r\<lparr>active_readers := active_readers r - 1\<rparr>
                   else r\<lparr>active_writers := active_writers r - 1\<rparr>"
  let ?tab = "if writer_waiting w
            then for_range (l_low ?lock) (l_high ?lock)
                   (slot_update (\<lambda>r. r\<lparr>waiting_writers := waiting_writers r - 1\<rparr>)) (locks s)
            else locks s"
  have avail: "lock_available (l_low ?lock) (l_high ?lock) (l_type ?lock) s"
    using loop by (auto simp: rotation_lock_loop_def Let_def split: if_splits)
  have i: "i = l_id ?lock" and
    s1: "s1 = s\<lparr>locks_info := ?lock # locks_info s,
                 locks := for_range (l_low ?lock) (l_high ?lock) (slot_update ?inc) ?tab\<rparr>"
    using loop avail by (auto simp: rotation_lock_loop_def Let_def)
  have found: "find_lock i s1 = Some ?lock"
    by (simp add: find_lock_def s1 i)
  have inv: "for_range (l_low ?lock) (l_high ?lock) (slot_update ?dec)
               (for_range (l_low ?lock) (l_high ?lock) (slot_update ?inc) ?tab) = ?tab"
    using low by (intro for_range_slot_inverse) auto
  have nni: "0 \<le> i" using nn i by simp
  note succ = rotation_unlock_success [OF nni found refl]
  have s2: "snd (rotation_unlock (l_pid ?lock) i s1) =
      s1\<lparr>locks_info := locks_info s, locks := ?tab, requests := wake_up_all (requests s1)\<rparr>"
    by (subst succ) (simp add: s1 inv)
  have held: "locks_info (snd (rotation_unlock (l_pid ?lock) i s1)) = locks_info s"
    by (simp add: s2)
  have gone: "find_lock i (snd (rotation_unlock (l_pid ?lock) i s1)) = None"
    unfolding find_lock_None held using fresh i by simp
  have first: "fst (rotation_unlock (l_pid ?lock) i s1) = Inr 0"
    by (subst succ) simp
  have second: "fst (rotation_unlock q i (snd (rotation_unlock (l_pid ?lock) i s1))) = Inl EINVAL"
    by (simp add: rotation_unlock_not_found [OF gone])
  have "locks (snd (rotation_unlock (l_pid ?lock) i s1)) = ?tab"
      "locks_info (snd (rotation_unlock (l_pid ?lock) i s1)) = locks_info s"
    by (simp_all add: s2)
  then show ?thesis using first second by simp
qed

text \<open>
  In a well-formed state, which a serial run keeps: when \<open>rotation_lock\<close> returns an
  id, \<open>rotation_unlock\<close> of that id by the same process succeeds and puts every counter
  of the table, and the list of held locks, back to what they were before the lock call,
  and a second \<open>rotation_unlock\<close> of the id fails with \<open>EINVAL\<close>. For a call that slept
  and gets the lock when it runs again, the release leaves the active counters as they
  were when it ran again and takes one \<open>waiting_writers\<close> count off its range if it had
  registered one; by \<open>counted\<close> that is the one count it had put there.
\<close>

lemma lock_unlock_round_trip:
  assumes "wf_state s"
  shows "(rotation_lock p low high type s = (Inr (Returned i), s1) \<longrightarrow>
            fst (rotation_unlock p i s1) = Inr 0 \<and>
            locks (snd (rotation_unlock p i s1)) = locks s \<and>
            locks_info (snd (rotation_unlock p i s1)) = locks_info s \<and>
            fst (rotation_unlock p i (snd (rotation_unlock p i s1))) = Inl EINVAL) \<and>
         (rotation_lock_resume n s = (Some (Returned i), s1) \<longrightarrow>
            fst (rotation_unlock (l_pid (w_lock (requests s ! n))) i s1) = Inr 0 \<and>
            locks (snd (rotation_unlock (l_pid (w_lock (requests s ! n))) i s1)) =
              (if writer_waiting (requests s ! n)
               then for_range (l_low (w_lock (requests s ! n))) (l_high (w_lock (requests s ! n)))
                      (slot_update (\<lambda>r. r\<lparr>waiting_writers := waiting_writers r - 1\<rparr>))
                      (locks s)
               else locks s) \<and>
            locks_info (snd (rotation_unlock (l_pid (w_lock (requests s ! n))) i s1)) =
              locks_info s \<and>
            fst (rotation_unlock (l_pid (w_lock (requests s ! n))) i
                   (snd (rotation_unlock (l_pid (w_lock (requests s ! n))) i s1))) = Inl EINVAL)"
proof (intro conjI impI)
  assume call: "rotation_lock p low high type s = (Inr (Returned i), s1)"
  let ?lock = "\<lparr>l_id = next_lock_id s, l_pid = p, l_low = low, l_high = high, l_type = type\<rparr>"
  let ?w = "\<lparr>w_lock = ?lock, writer_waiting = False, woken = False\<rparr>"
  let ?s0 = "s\<lparr>locks_initialized := True, next_lock_id := long_incr (next_lock_id s)\<rparr>"
  have "\<not> (low < 0 \<or> 360 \<le> low \<or> high < 0 \<or> 360 \<le> high \<or>
            (type \<noteq> ROT_READ \<and> type \<noteq> ROT_WRITE))"
  proof
    assume bad: "low < 0 \<or> 360 \<le> low \<or> high < 0 \<or> 360 \<le> high \<or>
                 (type \<noteq> ROT_READ \<and> type \<noteq> ROT_WRITE)"
    show False
      using rotation_lock_invalid [OF assms bad, of p] call by simp
  qed
  then have valid: "0 \<le> low" "low < 360" "0 \<le> high" "high < 360"
      "type = ROT_READ \<or> type = ROT_WRITE"
    by auto
  have loop: "rotation_lock_loop ?w ?s0 = (Returned i, s1)"
    using call rotation_lock_valid [OF assms valid, of p] by (simp add: prod_eq_iff)
  have fresh: "l_id (w_lock ?w) \<notin> l_id ` set (locks_info ?s0)"
    using wf_fresh [OF assms] by (auto simp: lock_ids_def)
  have nn: "0 \<le> l_id (w_lock ?w)" using assms by (simp add: wf_state_def)
  have low: "0 \<le> l_low (w_lock ?w)" using valid by simp
  note rt = grant_release [OF loop low nn fresh, of p]
  show "fst (rotation_unlock p i s1) = Inr 0" using rt by simp
  show "locks (snd (rotation_unlock p i s1)) = locks s" using rt by simp
  show "locks_info (snd (rotation_unlock p i s1)) = locks_info s" using rt by simp
  show "fst (rotation_unlock p i (snd (rotation_unlock p i s1))) = Inl EINVAL" using rt by simp
next
  assume res: "rotation_lock_resume n s = (Some (Returned i), s1)"
  let ?w = "requests s ! n"
  let ?s0 = "s\<lparr>requests := take n (requests s) @ drop (Suc n) (requests s)\<rparr>"
  have n: "n < length (requests s)"
    using res by (auto simp: rotation_lock_resume_def split: if_splits)
  have loop: "rotation_lock_loop ?w ?s0 = (Returned i, s1)"
    using res by (auto simp: rotation_lock_resume_def Let_def split_beta prod_eq_iff
        split: if_splits)
  note dr = wf_drop_request [OF assms n]
  have fresh: "l_id (w_lock ?w) \<notin> l_id ` set (locks_info ?s0)"
    using dr(2) by (auto simp: lock_ids_def)
  have nn: "0 \<le> l_id (w_lock ?w)" using dr(5) by simp
  have low: "0 \<le> l_low (w_lock ?w)" using dr(6) by (simp add: valid_lock_def)
  note rt = grant_release [OF loop low nn fresh, of "l_pid (w_lock ?w)"]
  show "fst (rotation_unlock (l_pid (w_lock ?w)) i s1) = Inr 0" using rt by simp
  show "locks (snd (rotation_unlock (l_pid (w_lock ?w)) i s1)) =
      (if writer_waiting ?w
       then for_range (l_low (w_lock ?w)) (l_high (w_lock ?w))
              (slot_update (\<lambda>r. r\<lparr>waiting_writers := waiting_writers r - 1\<rparr>)) (locks s)
       else locks s)"
    using rt by simp
  show "locks_info (snd (rotation_unlock (l_pid (w_lock ?w)) i s1)) = locks_info s"
    using rt by simp
  show "fst (rotation_unlock (l_pid (w_lock ?w)) i
           (snd (rotation_unlock (l_pid (w_lock ?w)) i s1))) = Inl EINVAL"
    using rt by simp
qed

text \<open>
  C7. The claim: for every id that a successful \<open>rotation_lock\<close> returns, after
  \<open>rotation_unlock\<close> of the id has succeeded a second \<open>rotation_unlock\<close> of it fails
  with \<open>EINVAL\<close>, and the counters are back at their values before the lock call. The
  source departs from it where two calls overlap at the id counter and get the same id
  (see C8). In the state \<open>after_race\<close> processes 1 and 2 each hold a read lock on
  \<open>[0, 10]\<close> with id 0, each returned by a successful call. Process 1 releases id 0 and
  succeeds; its second release of id 0 finds the lock of process 2 and fails with
  \<open>EPERM\<close>, not \<open>EINVAL\<close>.
\<close>

theorem second_unlock_meets_the_other_lock:
  "locks_info after_race =
     [\<lparr>l_id = 0, l_pid = 1, l_low = 0, l_high = 10, l_type = ROT_READ\<rparr>,
      \<lparr>l_id = 0, l_pid = 2, l_low = 0, l_high = 10, l_type = ROT_READ\<rparr>] \<and>
   fst (rotation_unlock 1 0 after_race) = Inr 0 \<and>
   locks_info (snd (rotation_unlock 1 0 after_race)) =
     [\<lparr>l_id = 0, l_pid = 2, l_low = 0, l_high = 10, l_type = ROT_READ\<rparr>] \<and>
   fst (rotation_unlock 1 0 (snd (rotation_unlock 1 0 after_race))) = Inl EPERM"
  by code_simp

section \<open>Lock ids\<close>

text \<open>
  In a serial run that does not take \<open>next_lock_id\<close> past \<open>LONG_MAX\<close>, the ids taken by
  the calls of \<open>rotation_lock\<close> are strictly increasing in the order in which the calls
  are entered, and none of them is the id of a lock that existed before the run; an id
  whose lock has been released is not taken again, and \<open>rotation_unlock\<close> of it fails
  with \<open>EINVAL\<close> after any further calls.
\<close>

lemma lock_ids_increase_and_are_not_reused:
  assumes "wf_state s" and "next_lock_id s + int (length cs) \<le> LONG_MAX"
  shows "sorted_wrt (<) (issued cs s) \<and>
         (\<forall>j\<in>set (issued cs s). j \<notin> set (lock_ids s)) \<and>
         (\<forall>j\<in>set (issued cs s). next_lock_id s \<le> j \<and> j < next_lock_id (run cs s)) \<and>
         next_lock_id s \<le> next_lock_id (run cs s) \<and>
         (fst (rotation_unlock q i s) = Inr 0 \<longrightarrow>
            i \<notin> set (issued cs (snd (rotation_unlock q i s))) \<and>
            fst (rotation_unlock p i (run cs (snd (rotation_unlock q i s)))) = Inl EINVAL)"
proof -
  note inv = run_invariants [OF assms]
  have old: "\<forall>j\<in>set (lock_ids s). j < next_lock_id s"
    using assms(1) unfolding wf_state_def list_all_iff by auto
  have new: "\<forall>j\<in>set (issued cs s). j \<notin> set (lock_ids s)"
    using inv old by fastforce
  have rel: "i \<notin> set (issued cs (snd (rotation_unlock q i s))) \<and>
      fst (rotation_unlock p i (run cs (snd (rotation_unlock q i s)))) = Inl EINVAL"
    if ok: "fst (rotation_unlock q i s) = Inr 0"
  proof -
    let ?s1 = "snd (rotation_unlock q i s)"
    have wf1: "wf_state ?s1" using assms(1) by (rule unlock_wf)
    have bd1: "next_lock_id ?s1 + int (length cs) \<le> LONG_MAX"
      using assms(2) by (simp add: unlock_frame)
    have st: "stale i ?s1" using assms(1) ok by (rule unlock_makes_stale)
    note inv1 = run_invariants [OF wf1 bd1, of i]
    have "stale i (run cs ?s1)" using inv1 st by simp
    then have "fst (rotation_unlock p i (run cs ?s1)) = Inl EINVAL"
      by (simp add: stale_unlock_fails)
    moreover have "i \<notin> set (issued cs ?s1)"
      using inv1 st unfolding stale_def by fastforce
    ultimately show ?thesis by simp
  qed
  show ?thesis using inv new rel by blast
qed

text \<open>
  C8. The claim: no two calls of \<open>rotation_lock\<close> are ever given the same id. The
  source departs from it, and from its own comment on \<open>rotation_lock\<close> (an id unique
  for each call): \<open>next_lock_id++\<close> is executed outside every mutex, so two calls that
  overlap can load the same value. From the static initialisers, process 1 validates
  \<open>rotation_lock(0, 10, ROT_READ)\<close> and loads the counter, 0; process 2 runs the same
  call from entry to return and is given id 0; process 1 goes on, stores 1 in the
  counter and is given id 0 as well. Both locks are held with id 0, and the counter
  stands at 1 after two ids have been given out.
\<close>

theorem racing_calls_get_the_same_id:
  "rotation_lock_load 1 0 10 ROT_READ initial_state =
     (Inr \<lparr>e_pid = 1, e_low = 0, e_high = 10, e_type = ROT_READ, e_loaded = 0\<rparr>,
      initial_state\<lparr>locks_initialized := True\<rparr>) \<and>
   fst (rotation_lock 2 0 10 ROT_READ (snd (rotation_lock_load 1 0 10 ROT_READ initial_state))) =
     Inr (Returned 0) \<and>
   fst (rotation_lock_store
          \<lparr>e_pid = 1, e_low = 0, e_high = 10, e_type = ROT_READ, e_loaded = 0\<rparr>
          (snd (rotation_lock 2 0 10 ROT_READ
                  (snd (rotation_lock_load 1 0 10 ROT_READ initial_state))))) =
     Returned 0 \<and>
   locks_info after_race =
     [\<lparr>l_id = 0, l_pid = 1, l_low = 0, l_high = 10, l_type = ROT_READ\<rparr>,
      \<lparr>l_id = 0, l_pid = 2, l_low = 0, l_high = 10, l_type = ROT_READ\<rparr>] \<and>
   next_lock_id after_race = 1"
  by code_simp

section \<open>The orientation store\<close>

text \<open>
  C9. A degree in \<open>[0, 360)\<close> is stored and the call succeeds; any other degree is refused
  with \<open>EINVAL\<close> and the stored orientation keeps its value.
\<close>

theorem set_orientation_stores_or_refuses:
  "(0 \<le> degree \<and> degree < 360 \<longrightarrow>
      fst (set_orientation degree s) = Inr 0 \<and>
      device_orientation (snd (set_orientation degree s)) = degree) \<and>
   (degree < 0 \<or> 360 \<le> degree \<longrightarrow>
      fst (set_orientation degree s) = Inl EINVAL \<and>
      device_orientation (snd (set_orientation degree s)) = device_orientation s)"
  by (simp add: set_orientation_def)

theorem set_orientation_stores_or_refuses_witness:
  "fst (set_orientation 100 initial_state) = Inr 0 \<and>
   device_orientation (snd (set_orientation 100 initial_state)) = 100 \<and>
   fst (set_orientation 360 initial_state) = Inl EINVAL \<and>
   device_orientation (snd (set_orientation 360 initial_state)) = 0 \<and>
   fst (set_orientation (- 1) initial_state) = Inl EINVAL \<and>
   device_orientation (snd (set_orientation (- 1) initial_state)) = 0"
  using set_orientation_stores_or_refuses [of 100 initial_state]
    set_orientation_stores_or_refuses [of 360 initial_state]
    set_orientation_stores_or_refuses [of "- 1" initial_state]
  by (simp add: initial_state_def)

text \<open>
  C10. Whether it succeeds or fails, \<open>set_orientation\<close> leaves every slot of the counter
  table, the list of held locks and the id counter as they were.
\<close>

theorem set_orientation_frame:
  "locks (snd (set_orientation degree s)) = locks s \<and>
   locks_info (snd (set_orientation degree s)) = locks_info s \<and>
   next_lock_id (snd (set_orientation degree s)) = next_lock_id s"
  by (simp add: set_orientation_def)

theorem set_orientation_frame_witness:
  "locks (snd (set_orientation 100 (snd (rotation_lock 1 0 10 ROT_READ initial_state)))) =
     locks (snd (rotation_lock 1 0 10 ROT_READ initial_state)) \<and>
   locks_info (snd (set_orientation 400 (snd (rotation_lock 1 0 10 ROT_READ initial_state)))) =
     locks_info (snd (rotation_lock 1 0 10 ROT_READ initial_state)) \<and>
   next_lock_id (snd (set_orientation 100 (snd (rotation_lock 1 0 10 ROT_READ initial_state)))) =
     next_lock_id (snd (rotation_lock 1 0 10 ROT_READ initial_state))"
  using set_orientation_frame [of 100 "snd (rotation_lock 1 0 10 ROT_READ initial_state)"]
    set_orientation_frame [of 400 "snd (rotation_lock 1 0 10 ROT_READ initial_state)"]
  by simp

end
